theory Spec2Isabelle
  imports Main
begin

section \<open>Strings of the Python program\<close>

text \<open>
  A Python \<^verbatim>\<open>str\<close> is a sequence of Unicode code points; \<^verbatim>\<open>len\<close> counts code points.
  The model is a list of code points, each a natural number.
\<close>

type_synonym str = "nat list"

definition codepoints :: "string \<Rightarrow> str" where
  "codepoints s = map of_char s"

text \<open>
  The characters \<^verbatim>\<open>str.strip()\<close> removes and the regular expression class \<^verbatim>\<open>\s\<close>
  matches (for a \<^verbatim>\<open>str\<close> pattern): CPython's \<^verbatim>\<open>Py_UNICODE_ISSPACE\<close>, that is
  U+0009..U+000D, U+001C..U+0020, U+0085, U+00A0, U+1680, U+2000..U+200A, U+2028, U+2029,
  U+202F, U+205F and U+3000.
\<close>

definition is_space :: "nat \<Rightarrow> bool" where
  "is_space c =
     ((9 \<le> c \<and> c \<le> 13) \<or> (28 \<le> c \<and> c \<le> 32) \<or> c = 133 \<or> c = 160 \<or> c = 5760 \<or>
      (8192 \<le> c \<and> c \<le> 8202) \<or> c = 8232 \<or> c = 8233 \<or> c = 8239 \<or> c = 8287 \<or> c = 12288)"

text \<open>\<^verbatim>\<open>s.strip()\<close>: whitespace removed at both ends.\<close>

definition strip :: "str \<Rightarrow> str" where
  "strip s = rev (dropWhile is_space (rev (dropWhile is_space s)))"

section \<open>The chunker: \<^verbatim>\<open>split_markdown\<close>\<close>

text \<open>
  One match of \<^verbatim>\<open>#+\s.*?$\<close> (flag MULTILINE) at the head of the remaining text, at a
  position where \<^verbatim>\<open>^\<close> holds. The greedy \<^verbatim>\<open>#+\<close> takes every \<^verbatim>\<open>#\<close> (35); giving one
  back never helps, since \<^verbatim>\<open>\s\<close> would then face a \<^verbatim>\<open>#\<close>. \<^verbatim>\<open>\s\<close> takes one whitespace
  character, a newline (10) included. The lazy \<^verbatim>\<open>.*?\<close> stops at the first place where
  \<^verbatim>\<open>$\<close> holds: before the next newline, or at the end of the text. The result is the
  matched headline and the text after it.
\<close>

definition match_headline :: "str \<Rightarrow> (str \<times> str) option" where
  "match_headline s =
     (let hashes = takeWhile (\<lambda>c. c = 35) s;
          after = dropWhile (\<lambda>c. c = 35) s
      in if hashes = [] then None
         else (case after of
                 [] \<Rightarrow> None
               | w # r \<Rightarrow>
                   if is_space w
                   then Some (hashes @ w # takeWhile (\<lambda>c. c \<noteq> 10) r, dropWhile (\<lambda>c. c \<noteq> 10) r)
                   else None))"

text \<open>
  \<^verbatim>\<open>re.split(r'(^#+\s.*?$)', text, flags=re.MULTILINE)\<close>: the text is scanned from the
  left; \<open>bol\<close> says whether \<^verbatim>\<open>^\<close> holds at the current position (the start of the
  text, or just after a newline) and \<open>piece\<close> is the text since the last match. A match
  closes the piece and, the pattern being one capturing group, adds the headline itself
  to the list; the scan goes on after the match.
\<close>

function re_split_from :: "bool \<Rightarrow> str \<Rightarrow> str \<Rightarrow> str list" where
  "re_split_from bol piece [] = [piece]"
| "re_split_from bol piece (c # cs) =
     (case (if bol then match_headline (c # cs) else None) of
        Some (headline, rest) \<Rightarrow> piece # headline # re_split_from (last headline = 10) [] rest
      | None \<Rightarrow> re_split_from (c = 10) (piece @ [c]) cs)"
  by pat_completeness auto
termination
proof (relation "measure (\<lambda>(bol, piece, s). length s)")
  show "wf (measure (\<lambda>(bol, piece, s). length s))" by simp
next
  fix bol :: bool and piece :: str and c :: nat and cs :: str and x2 and headline rest :: str
  assume m: "(if bol then match_headline (c # cs) else None) = Some x2" and x: "(headline, rest) = x2"
  from m x have mh: "match_headline (c # cs) = Some (headline, rest)"
    by (simp split: if_splits)
  then obtain w r where a: "dropWhile (\<lambda>c. c = 35) (c # cs) = w # r"
    and r: "rest = dropWhile (\<lambda>c. c \<noteq> 10) r"
    by (auto simp: match_headline_def Let_def split: if_splits list.splits)
  have "length rest \<le> length r" using r by (simp add: length_dropWhile_le)
  moreover have "length (w # r) \<le> length (c # cs)"
    using a length_dropWhile_le [of "\<lambda>c. c = 35" "c # cs"] by simp
  ultimately have "length rest < length (c # cs)" by simp
  then show "((last headline = 10, [], rest), (bol, piece, c # cs)) \<in> measure (\<lambda>(bol, piece, s). length s)"
    by simp
next
  fix bol :: bool and piece :: str and c :: nat and cs :: str
  show "((c = 10, piece @ [c], cs), (bol, piece, c # cs)) \<in> measure (\<lambda>(bol, piece, s). length s)"
    by simp
qed

definition re_split :: "str \<Rightarrow> str list" where
  "re_split s = re_split_from True [] s"

text \<open>
  One turn of the loop of \<^verbatim>\<open>split_markdown\<close> on the state
  \<open>(sections, current_section)\<close>: when the accumulator is not empty and the new
  headline section would take it past \<open>max_chunk_size\<close>, the accumulator is closed
  (stripped) and reset; the headline and its content are then added to it in every case.
\<close>

definition add_section :: "int \<Rightarrow> str \<Rightarrow> str \<Rightarrow> str list \<times> str \<Rightarrow> str list \<times> str" where
  "add_section max_chunk_size headline content st =
     (case st of (sections, current_section) \<Rightarrow>
        if length current_section \<noteq> 0 \<and>
           int (length current_section) + int (length headline) + int (length content) > max_chunk_size
        then (sections @ [strip current_section], headline @ content)
        else (sections, current_section @ headline @ content))"

text \<open>
  \<^verbatim>\<open>for i in range(1, len(headlines), 2)\<close> over the list from index 1 on: the headline
  is \<^verbatim>\<open>headlines[i]\<close>, the content \<^verbatim>\<open>headlines[i + 1]\<close> when there is one, else the empty
  string.
\<close>

fun combine :: "int \<Rightarrow> str list \<Rightarrow> str list \<times> str \<Rightarrow> str list \<times> str" where
  "combine max_chunk_size [] st = st"
| "combine max_chunk_size [headline] st = add_section max_chunk_size headline [] st"
| "combine max_chunk_size (headline # content # rest) st =
     combine max_chunk_size rest (add_section max_chunk_size headline content st)"

definition split_markdown :: "str \<Rightarrow> int \<Rightarrow> str list" where
  "split_markdown markdown_text max_chunk_size =
     (let headlines = re_split markdown_text;
          (sections, current_section) = combine max_chunk_size (tl headlines) ([], [])
      in if current_section \<noteq> [] then sections @ [strip current_section] else sections)"

subsection \<open>Headline sections and their grouping into chunks\<close>

text \<open>
  The loop reads the list after its first element in pairs \<open>(headline, content)\<close>;
  these pairs are the headline sections of the text.
\<close>

fun pair_up :: "str list \<Rightarrow> (str \<times> str) list" where
  "pair_up [] = []"
| "pair_up [headline] = [(headline, [])]"
| "pair_up (headline # content # rest) = (headline, content) # pair_up rest"

definition headline_sections :: "str \<Rightarrow> (str \<times> str) list" where
  "headline_sections markdown_text = pair_up (tl (re_split markdown_text))"

definition interleave :: "(str \<times> str) list \<Rightarrow> str list" where
  "interleave ps = concat (map (\<lambda>(h, c). [h, c]) ps)"

text \<open>The text of a run of headline sections.\<close>

definition flat :: "(str \<times> str) list \<Rightarrow> str" where
  "flat g = concat (map (\<lambda>(headline, content). headline @ content) g)"

text \<open>
  The same loop on whole sections, with the strip left out: \<open>cur\<close> is the run of
  sections held in \<open>current_section\<close>, and the result lists the runs that become
  chunks. \<open>split_markdown_grouping\<close> below shows that \<open>split_markdown\<close> returns
  exactly the stripped texts of these runs.
\<close>

fun grouping :: "int \<Rightarrow> (str \<times> str) list \<Rightarrow> (str \<times> str) list \<Rightarrow> (str \<times> str) list list" where
  "grouping m cur [] = (if cur = [] then [] else [cur])"
| "grouping m cur ((headline, content) # ps) =
     (if cur \<noteq> [] \<and> int (length (flat cur)) + int (length headline) + int (length content) > m
      then cur # grouping m [(headline, content)] ps
      else grouping m (cur @ [(headline, content)]) ps)"

text \<open>
  Position \<open>p\<close> of the text starts a heading line for the regular expression: \<^verbatim>\<open>^\<close>
  holds there and \<^verbatim>\<open>#+\s.*?$\<close> matches.
\<close>

definition heading_at :: "str \<Rightarrow> nat \<Rightarrow> bool" where
  "heading_at t p = ((p = 0 \<or> t ! (p - 1) = 10) \<and> match_headline (drop p t) \<noteq> None)"

text \<open>The same at position \<open>p\<close> of a remaining text, \<open>bol\<close> telling whether \<^verbatim>\<open>^\<close> holds at its start.\<close>

definition heading_from :: "bool \<Rightarrow> str \<Rightarrow> nat \<Rightarrow> bool" where
  "heading_from bol s p =
     ((if p = 0 then bol else s ! (p - 1) = 10) \<and> match_headline (drop p s) \<noteq> None)"

text \<open>The characters of a text other than whitespace, in order.\<close>

definition non_space :: "str \<Rightarrow> str" where
  "non_space s = filter (\<lambda>c. \<not> is_space c) s"

section \<open>The content extractor's postprocessing\<close>

text \<open>
  The line boundaries of \<^verbatim>\<open>str.splitlines()\<close>: U+000A..U+000D, U+001C..U+001E,
  U+0085, U+2028 and U+2029.
\<close>

definition is_linebreak :: "nat \<Rightarrow> bool" where
  "is_linebreak c =
     ((10 \<le> c \<and> c \<le> 13) \<or> (28 \<le> c \<and> c \<le> 30) \<or> c = 133 \<or> c = 8232 \<or> c = 8233)"

text \<open>
  \<^verbatim>\<open>content.splitlines()\<close>: the text is cut at every line boundary, \<^verbatim>\<open>\r\n\<close> counting as
  one; the boundaries are dropped, and a text that ends with a boundary has no empty
  last line. \<open>line\<close> is the line read so far.
\<close>

function splitlines_from :: "str \<Rightarrow> str \<Rightarrow> str list" where
  "splitlines_from line [] = (if line = [] then [] else [line])"
| "splitlines_from line (c # cs) =
     (if is_linebreak c
      then line # splitlines_from [] (if c = 13 \<and> cs \<noteq> [] \<and> hd cs = 10 then tl cs else cs)
      else splitlines_from (line @ [c]) cs)"
  by pat_completeness auto
termination
  by (relation "measure (\<lambda>(line, s). length s)") auto

definition splitlines :: "str \<Rightarrow> str list" where
  "splitlines s = splitlines_from [] s"

text \<open>\<^verbatim>\<open>"\n".join(lines)\<close>.\<close>

fun join_newline :: "str list \<Rightarrow> str" where
  "join_newline [] = []"
| "join_newline [line] = line"
| "join_newline (line # next_line # lines) = line @ 10 # join_newline (next_line # lines)"

text \<open>
  \<^verbatim>\<open>re.sub(r'\n{2,}', '\n\n', content)\<close>: scanning from the left, where two newlines
  stand the greedy \<^verbatim>\<open>\n{2,}\<close> takes the whole run of newlines, which is replaced by two;
  any other character is copied.
\<close>

function sub_newlines :: "str \<Rightarrow> str" where
  "sub_newlines [] = []"
| "sub_newlines (c # cs) =
     (if c = 10 \<and> cs \<noteq> [] \<and> hd cs = 10
      then 10 # 10 # sub_newlines (dropWhile (\<lambda>d. d = 10) cs)
      else c # sub_newlines cs)"
  by pat_completeness auto
termination
  by (relation "measure length") (auto simp: length_dropWhile_le less_Suc_eq_le)

text \<open>
  Lines 50 to 56 of \<^verbatim>\<open>processing_html\<close>: every line stripped, the lines joined with
  newlines, runs of newlines cut down to two.
\<close>

definition normalize_whitespace :: "str \<Rightarrow> str" where
  "normalize_whitespace content = sub_newlines (join_newline (map strip (splitlines content)))"


section \<open>The fetcher: \<^verbatim>\<open>fetch_url\<close>\<close>

text \<open>
  What the program can raise: the \<^verbatim>\<open>HTTPError\<close> that \<^verbatim>\<open>Response.raise_for_status()\<close>
  raises for a status from 400 to 599, an exception of \<^verbatim>\<open>requests.get\<close> itself (no
  connection, timeout), and any other \<^verbatim>\<open>Exception\<close>.
\<close>

datatype exn = HTTPError int | RequestException string | OtherException string

record response =
  status_code :: int
  resp_text :: str

text \<open>
  The bound method \<^verbatim>\<open>rep.raise_for_status\<close>: a function that raises when it is called
  (applied to \<open>()\<close>) on a response with an error status.
\<close>

definition raise_for_status :: "response \<Rightarrow> unit \<Rightarrow> exn + unit" where
  "raise_for_status rep u =
     (if 400 \<le> status_code rep \<and> status_code rep < 600 then Inl (HTTPError (status_code rep))
      else Inr ())"

text \<open>
  The body of \<^verbatim>\<open>fetch_url\<close> on the outcome of \<^verbatim>\<open>requests.get(url, headers=headers)\<close>:
  an exception of the request goes up; on a response, line 29 names the method
  \<^verbatim>\<open>rep.raise_for_status\<close> and does not call it, and \<^verbatim>\<open>rep.text\<close> is returned.
\<close>

definition fetch_url_body :: "exn + response \<Rightarrow> exn + str" where
  "fetch_url_body got =
     (case got of
        Inl e \<Rightarrow> Inl e
      | Inr rep \<Rightarrow> (let unused = raise_for_status rep in Inr (resp_text rep)))"

text \<open>
  \<^verbatim>\<open>@retry(stop=stop_after_attempt(3), wait=wait_fixed(3), reraise=True)\<close>: the call
  numbered \<open>attempt\<close> is made; a result is returned, an exception leads to the next
  attempt while \<open>remaining\<close> attempts are left, and is raised again otherwise. The
  result comes with the number of attempts made.
\<close>

fun retrying :: "nat \<Rightarrow> nat \<Rightarrow> (nat \<Rightarrow> exn + 'a) \<Rightarrow> (exn + 'a) \<times> nat" where
  "retrying 0 attempt f = (f attempt, attempt)"
| "retrying (Suc remaining) attempt f =
     (case f attempt of
        Inr v \<Rightarrow> (Inr v, attempt)
      | Inl e \<Rightarrow> retrying remaining (Suc attempt) f)"

text \<open>
  \<^verbatim>\<open>fetch_url\<close>, given what \<^verbatim>\<open>requests.get\<close> does on the first, second and third
  attempt.
\<close>

definition fetch_url :: "(nat \<Rightarrow> exn + response) \<Rightarrow> (exn + str) \<times> nat" where
  "fetch_url get = retrying 2 1 (\<lambda>attempt. fetch_url_body (get attempt))"

section \<open>The discoverer: the loop of \<^verbatim>\<open>get_help_docs_urls\<close>\<close>

text \<open>
  The JSON values an entry holds for a key, as far as the loop reads them: \<^verbatim>\<open>null\<close> or
  a string. An entry is a dictionary; a section holds its list of entries under
  \<^verbatim>\<open>"entries"\<close>.
\<close>

datatype json = JNull | JString str

type_synonym entry = "str \<rightharpoonup> json"

record nav_section =
  entries :: "entry list"

text \<open>
  \<^verbatim>\<open>i.get("url")\<close>: \<^verbatim>\<open>None\<close> when the key is missing, and when its value is \<^verbatim>\<open>null\<close>.
\<close>

definition get_url :: "entry \<Rightarrow> str option" where
  "get_url i =
     (case i (codepoints ''url'') of
        None \<Rightarrow> None
      | Some JNull \<Rightarrow> None
      | Some (JString url) \<Rightarrow> Some url)"

text \<open>
  The inner loop over the entries of one section, on the state \<open>(urls, count)\<close>:
  \<^verbatim>\<open>if url:\<close> holds for a string that is not empty.
\<close>

fun entries_loop :: "str \<Rightarrow> entry list \<Rightarrow> str list \<times> nat \<Rightarrow> str list \<times> nat" where
  "entries_loop base_url [] st = st"
| "entries_loop base_url (i # l2_list) (urls, count) =
     (case get_url i of
        None \<Rightarrow> entries_loop base_url l2_list (urls, count)
      | Some url \<Rightarrow>
          if url \<noteq> []
          then entries_loop base_url l2_list (urls @ [base_url @ url], count + 1)
          else entries_loop base_url l2_list (urls, count))"

text \<open>The outer loop over the sections; \<open>count\<close> starts at 0 in each section.\<close>

fun sections_loop :: "str \<Rightarrow> nav_section list \<Rightarrow> str list \<Rightarrow> str list" where
  "sections_loop base_url [] urls = urls"
| "sections_loop base_url (l1 # l1_list) urls =
     sections_loop base_url l1_list (fst (entries_loop base_url (entries l1) (urls, 0)))"

text \<open>
  Lines 81 to 97 of \<^verbatim>\<open>get_help_docs_urls\<close>, on the parsed \<^verbatim>\<open>helpArticleTree\<close>.
\<close>

definition get_help_docs_urls :: "str \<Rightarrow> nav_section list \<Rightarrow> str list" where
  "get_help_docs_urls base_url l1_list = sections_loop base_url l1_list []"

text \<open>
  The claim's words: the URL of an entry counts when the field is present, is not
  \<^verbatim>\<open>null\<close> and is not empty; the result is \<open>base_url\<close> before each such URL, over
  the sections in order and the entries of each section in order.
\<close>

definition present_url :: "entry \<Rightarrow> str option" where
  "present_url i =
     (case i (codepoints ''url'') of
        Some (JString url) \<Rightarrow> if url = [] then None else Some url
      | _ \<Rightarrow> None)"

definition discovered :: "str \<Rightarrow> nav_section list \<Rightarrow> str list" where
  "discovered base_url tree =
     map (\<lambda>url. base_url @ url) (List.map_filter present_url (concat (map entries tree)))"

definition url_entry :: "json \<Rightarrow> entry" where
  "url_entry v = [codepoints ''url'' \<mapsto> v]"

definition example_tree :: "nav_section list" where
  "example_tree =
     [\<lparr>entries = [url_entry (JString (codepoints ''/a'')), url_entry JNull,
                   url_entry (JString (codepoints ''/b''))]\<rparr>,
      \<lparr>entries = [url_entry (JString (codepoints ''/c''))]\<rparr>]"

section \<open>The pipeline driver: \<^verbatim>\<open>scrapping_notion\<close>\<close>

datatype log_record =
    Info_got nat str  \<comment> \<open>\<^verbatim>\<open>Got {len(_chunks)} chunk(s) from URL '{url}'\<close>\<close>
  | Error_failed str  \<comment> \<open>\<^verbatim>\<open>Failed processing URL '{url}'\<close>\<close>
  | Info_total nat  \<comment> \<open>\<^verbatim>\<open>{len(chunks)} chunks in total\<close>\<close>

text \<open>
  The loop of \<^verbatim>\<open>scrapping_notion\<close> over the discovered URLs, each given with what
  \<^verbatim>\<open>read_url(url)\<close> does when its turn comes: it returns the content or raises. The state
  is \<open>(chunks, log)\<close>. \<^verbatim>\<open>except Exception\<close> catches the exception, logs the failure and
  goes on; \<^verbatim>\<open>split_markdown\<close> raises nothing.
\<close>

fun process_urls :: "(str \<times> (exn + str)) list \<Rightarrow> str list \<times> log_record list \<Rightarrow> str list \<times> log_record list" where
  "process_urls [] st = st"
| "process_urls ((url, outcome) # rest) (chunks, log) =
     (case outcome of
        Inr content \<Rightarrow>
          (let new_chunks = split_markdown content 750
           in process_urls rest (chunks @ new_chunks, log @ [Info_got (length new_chunks) url]))
      | Inl e \<Rightarrow> process_urls rest (chunks, log @ [Error_failed url]))"

text \<open>
  \<^verbatim>\<open>scrapping_notion\<close> after the discovery: the chunks handed to \<^verbatim>\<open>save_list_to_file\<close>
  and the log.
\<close>

definition scrapping_notion :: "(str \<times> (exn + str)) list \<Rightarrow> str list \<times> log_record list" where
  "scrapping_notion docs =
     (case process_urls docs ([], []) of
        (chunks, log) \<Rightarrow> (chunks, log @ [Info_total (length chunks)]))"

text \<open>The chunks one document gives: those of its content, none when it failed.\<close>

definition chunks_of :: "exn + str \<Rightarrow> str list" where
  "chunks_of outcome = (case outcome of Inr content \<Rightarrow> split_markdown content 750 | Inl e \<Rightarrow> [])"

definition failures :: "log_record list \<Rightarrow> str list" where
  "failures log = concat (map (\<lambda>r. case r of Error_failed url \<Rightarrow> [url] | _ \<Rightarrow> []) log)"

definition failed_urls :: "(str \<times> (exn + str)) list \<Rightarrow> str list" where
  "failed_urls docs = concat (map (\<lambda>(url, outcome). case outcome of Inl e \<Rightarrow> [url] | Inr c \<Rightarrow> []) docs)"

section \<open>Devices for the proofs about the postprocessing\<close>

text \<open>A text without one newline at its end, when it has one.\<close>

definition chop_newline :: "str \<Rightarrow> str" where
  "chop_newline t = (if t \<noteq> [] \<and> last t = 10 then butlast t else t)"

text \<open>
  A line as the postprocessing leaves it: no line boundary in it, and no whitespace at
  its ends.
\<close>

definition clean_line :: "str \<Rightarrow> bool" where
  "clean_line l = ((\<forall>c \<in> set l. \<not> is_linebreak c) \<and> (l = [] \<or> (\<not> is_space (hd l) \<and> \<not> is_space (last l))))"

text \<open>No three newlines in a row.\<close>

fun no_triple_newline :: "str \<Rightarrow> bool" where
  "no_triple_newline (a # b # c # r) = (\<not> (a = 10 \<and> b = 10 \<and> c = 10) \<and> no_triple_newline (b # c # r))"
| "no_triple_newline r = True"

text \<open>The text cut at every newline, as \<^verbatim>\<open>str.split("\n")\<close> does.\<close>

fun split_newline_from :: "str \<Rightarrow> str \<Rightarrow> str list" where
  "split_newline_from line [] = [line]"
| "split_newline_from line (c # cs) =
     (if c = 10 then line # split_newline_from [] cs else split_newline_from (line @ [c]) cs)"

text \<open>What \<^verbatim>\<open>splitlines\<close> makes of these lines joined again: an empty last line is dropped.\<close>

definition drop_last_empty :: "str list \<Rightarrow> str list" where
  "drop_last_empty M = (if M = [] \<or> last M = [] then butlast M else M)"

section \<open>The sink: \<^verbatim>\<open>save_list_to_file\<close>\<close>












section \<open>Reading the file back: a Python list of string literals\<close>










section \<open>Properties of the chunker\<close>

lemma match_headline_Some:
  assumes "match_headline s = Some (h, r)"
  shows "h @ r = s" and "h \<noteq> []" and "hd h = 35"
proof -
  let ?hs = "takeWhile (\<lambda>c. c = 35) s"
  from assms obtain w r' where a: "dropWhile (\<lambda>c. c = 35) s = w # r'"
    and ne: "?hs \<noteq> []"
    and h: "h = ?hs @ w # takeWhile (\<lambda>c. c \<noteq> 10) r'"
    and r: "r = dropWhile (\<lambda>c. c \<noteq> 10) r'"
    by (auto simp: match_headline_def Let_def split: if_splits list.splits)
  have "h @ r = ?hs @ w # r'" using h r by simp
  also have "\<dots> = ?hs @ dropWhile (\<lambda>c. c = 35) s" using a by simp
  finally show "h @ r = s" by simp
  show "h \<noteq> []" using h by simp
  have "hd ?hs \<in> set ?hs" using ne by simp
  then have "hd ?hs = 35" by (auto dest: set_takeWhileD)
  then show "hd h = 35" using h ne by simp
qed

lemma concat_re_split_from: "concat (re_split_from bol piece s) = piece @ s"
proof (induction bol piece s rule: re_split_from.induct)
  case (1 bol piece)
  show ?case by simp
next
  case (2 bol piece c cs)
  show ?case
  proof (cases "if bol then match_headline (c # cs) else None")
    case None
    with 2 show ?thesis by simp
  next
    case (Some x)
    obtain h r where x: "x = (h, r)" by (cases x)
    from Some x have mh: "match_headline (c # cs) = Some (h, r)" by (simp split: if_splits)
    from 2(2) [OF Some x [symmetric]] have "concat (re_split_from (last h = 10) [] r) = r" by simp
    with Some x match_headline_Some(1) [OF mh] show ?thesis by simp
  qed
qed

lemma pair_up_interleave: "pair_up (interleave ps) = ps"
  by (induction ps) (auto simp: interleave_def)

lemma re_split_from_shape:
  "\<exists>pre ps. re_split_from bol piece s = pre # interleave ps \<and> (\<forall>(h, c) \<in> set ps. h \<noteq> [] \<and> hd h = 35)"
proof (induction bol piece s rule: re_split_from.induct)
  case (1 bol piece)
  have "[piece] = piece # interleave []" by (simp add: interleave_def)
  then show ?case by force
next
  case (2 bol piece c cs)
  show ?case
  proof (cases "if bol then match_headline (c # cs) else None")
    case None
    with 2(1) show ?thesis by simp
  next
    case (Some x)
    obtain h r where x: "x = (h, r)" by (cases x)
    from Some x have mh: "match_headline (c # cs) = Some (h, r)" by (simp split: if_splits)
    from 2(2) [OF Some x [symmetric]] obtain pre ps
      where rs: "re_split_from (last h = 10) [] r = pre # interleave ps"
        and ok: "\<forall>(h, c) \<in> set ps. h \<noteq> [] \<and> hd h = 35"
      by blast
    have "re_split_from bol piece (c # cs) = piece # interleave ((h, pre) # ps)"
      using Some x rs by (simp add: interleave_def)
    moreover have "\<forall>(h, c) \<in> set ((h, pre) # ps). h \<noteq> [] \<and> hd h = 35"
      using ok match_headline_Some(2,3) [OF mh] by simp
    ultimately show ?thesis by blast
  qed
qed

lemma headline_sections_headlines:
  "(h, c) \<in> set (headline_sections t) \<Longrightarrow> h \<noteq> [] \<and> hd h = 35"
proof -
  assume a: "(h, c) \<in> set (headline_sections t)"
  obtain pre ps where rs: "re_split t = pre # interleave ps"
    and ok: "\<forall>(h, c) \<in> set ps. h \<noteq> [] \<and> hd h = 35"
    using re_split_from_shape [of True "[]" t] by (auto simp: re_split_def)
  from a rs have "(h, c) \<in> set ps" by (simp add: headline_sections_def pair_up_interleave)
  with ok show ?thesis by blast
qed

lemma re_split_sections:
  "hd (re_split t) @ flat (headline_sections t) = t"
proof -
  obtain pre ps where rs: "re_split t = pre # interleave ps"
    using re_split_from_shape [of True "[]" t] by (auto simp: re_split_def)
  have "concat (interleave ps) = flat ps"
    by (induction ps) (auto simp: interleave_def flat_def)
  moreover have "concat (re_split t) = t"
    by (simp add: re_split_def concat_re_split_from)
  ultimately show ?thesis
    using rs by (simp add: headline_sections_def pair_up_interleave)
qed

lemma combine_pair_up:
  "combine m xs st = foldl (\<lambda>st (h, c). add_section m h c st) st (pair_up xs)"
  by (induction m xs st rule: combine.induct) auto


lemma flat_simps [simp]:
  "flat [] = []" "flat ((h, c) # g) = h @ c @ flat g" "flat (g @ g') = flat g @ flat g'"
  by (simp_all add: flat_def)

lemma flat_eq_Nil: "\<forall>(h, c) \<in> set g. h \<noteq> [] \<Longrightarrow> flat g = [] \<longleftrightarrow> g = []"
  by (cases g) auto

lemma combine_grouping:
  assumes "\<forall>(h, c) \<in> set ps. h \<noteq> []" and "\<forall>(h, c) \<in> set cur. h \<noteq> []"
  shows "(case foldl (\<lambda>st (h, c). add_section m h c st) (secs, flat cur) ps of
            (sections, current_section) \<Rightarrow>
              if current_section \<noteq> [] then sections @ [strip current_section] else sections)
         = secs @ map (\<lambda>g. strip (flat g)) (grouping m cur ps)"
  using assms
proof (induction ps arbitrary: secs cur)
  case Nil
  then show ?case by (simp add: flat_eq_Nil)
next
  case (Cons p ps)
  obtain h c where p: "p = (h, c)" by (cases p)
  from Cons.prems p have h: "h \<noteq> []" and ps: "\<forall>(h, c) \<in> set ps. h \<noteq> []" by auto
  have cur: "flat cur = [] \<longleftrightarrow> cur = []" using Cons.prems(2) by (rule flat_eq_Nil)
  show ?case
  proof (cases "cur \<noteq> [] \<and> int (length (flat cur)) + int (length h) + int (length c) > m")
    case True
    have "add_section m h c (secs, flat cur) = (secs @ [strip (flat cur)], flat [(h, c)])"
      using True cur by (simp add: add_section_def)
    moreover have "\<forall>(h, c) \<in> set [(h, c)]. h \<noteq> []" using h by simp
    ultimately show ?thesis
      using Cons.IH [OF ps, of "[(h, c)]" "secs @ [strip (flat cur)]"] True p
      by (simp del: flat_simps)
  next
    case False
    have "add_section m h c (secs, flat cur) = (secs, flat (cur @ [(h, c)]))"
      using False cur by (auto simp: add_section_def)
    moreover have "\<forall>(h, c) \<in> set (cur @ [(h, c)]). h \<noteq> []" using h Cons.prems(2) by auto
    ultimately show ?thesis
      using Cons.IH [OF ps, of "cur @ [(h, c)]" secs] False p
      by (auto simp del: flat_simps)
  qed
qed

lemma split_markdown_grouping:
  "split_markdown t m = map (\<lambda>g. strip (flat g)) (grouping m [] (headline_sections t))"
proof -
  have "\<forall>(h, c) \<in> set (headline_sections t). h \<noteq> []"
    using headline_sections_headlines by blast
  from combine_grouping [OF this, of "[]" m "[]"] show ?thesis
    by (simp add: split_markdown_def combine_pair_up headline_sections_def Let_def
        split: prod.splits)
qed

lemma concat_grouping: "concat (grouping m cur ps) = cur @ ps"
  by (induction ps arbitrary: cur) auto

lemma grouping_nonempty: "g \<in> set (grouping m cur ps) \<Longrightarrow> g \<noteq> []"
  by (induction ps arbitrary: cur) (auto split: if_splits)

lemma grouping_bound:
  "g \<in> set (grouping m cur ps) \<Longrightarrow> (1 < length cur \<Longrightarrow> int (length (flat cur)) \<le> m) \<Longrightarrow>
   1 < length g \<Longrightarrow> int (length (flat g)) \<le> m"
proof (induction ps arbitrary: cur)
  case Nil
  then show ?case by (auto split: if_splits)
next
  case (Cons p ps)
  obtain h c where p: "p = (h, c)" by (cases p)
  show ?case
  proof (cases "cur \<noteq> [] \<and> int (length (flat cur)) + int (length h) + int (length c) > m")
    case True
    with Cons.prems p have "g = cur \<or> g \<in> set (grouping m [(h, c)] ps)" by simp
    then show ?thesis
    proof
      assume "g = cur"
      with Cons.prems show ?thesis by simp
    next
      assume "g \<in> set (grouping m [(h, c)] ps)"
      then show ?thesis using Cons.IH [of "[(h, c)]"] Cons.prems(3) by simp
    qed
  next
    case False
    with Cons.prems p have g: "g \<in> set (grouping m (cur @ [(h, c)]) ps)" by auto
    have "1 < length (cur @ [(h, c)]) \<Longrightarrow> int (length (flat (cur @ [(h, c)]))) \<le> m"
      using False by (cases cur) auto
    then show ?thesis using Cons.IH [OF g] Cons.prems(3) by blast
  qed
qed

lemma length_strip: "length (strip s) \<le> length s"
proof -
  have "length (strip s) \<le> length (dropWhile is_space s)"
    using length_dropWhile_le [of is_space "rev (dropWhile is_space s)"] by (simp add: strip_def)
  also have "\<dots> \<le> length s" by (rule length_dropWhile_le)
  finally show ?thesis .
qed

lemma strip_hd:
  assumes "s \<noteq> []" and "\<not> is_space (hd s)"
  shows "strip s \<noteq> [] \<and> hd (strip s) = hd s"
proof -
  obtain c cs where s: "s = c # cs" using assms(1) by (cases s) auto
  with assms(2) have c: "\<not> is_space c" by simp
  have d: "dropWhile is_space (rev cs @ [c]) = dropWhile is_space (rev cs) @ [c]"
    using c by (simp add: dropWhile_append)
  show ?thesis using s c d by (simp add: strip_def)
qed


lemma re_split_from_ne: "re_split_from bol piece s \<noteq> []"
  using re_split_from_shape [of bol piece s] by force

lemma re_split_from_tl:
  "tl (re_split_from bol piece s) \<noteq> [] \<longleftrightarrow>
   (\<exists>p<length s. (if p = 0 then bol else s ! (p - 1) = 10) \<and> match_headline (drop p s) \<noteq> None)"
proof (induction bol piece s rule: re_split_from.induct)
  case (1 bol piece)
  show ?case by simp
next
  case (2 bol piece c cs)
  show ?case
  proof (cases "if bol then match_headline (c # cs) else None")
    case (Some x)
    then have "bol \<and> match_headline (c # cs) \<noteq> None" by (auto split: if_splits)
    then have "\<exists>p<length (c # cs). (if p = 0 then bol else (c # cs) ! (p - 1) = 10) \<and>
        match_headline (drop p (c # cs)) \<noteq> None"
      by (intro exI [of _ 0]) simp
    moreover have "tl (re_split_from bol piece (c # cs)) \<noteq> []"
      using Some by (cases x) simp
    ultimately show ?thesis by blast
  next
    case None
    then have no0: "\<not> (bol \<and> match_headline (c # cs) \<noteq> None)" by (auto split: if_splits)
    have "tl (re_split_from bol piece (c # cs)) \<noteq> [] \<longleftrightarrow>
          (\<exists>q<length cs. (if q = 0 then c = 10 else cs ! (q - 1) = 10) \<and> match_headline (drop q cs) \<noteq> None)"
      using 2(1) [OF None] None by simp
    also have "\<dots> \<longleftrightarrow> (\<exists>p<length (c # cs). (if p = 0 then bol else (c # cs) ! (p - 1) = 10) \<and>
        match_headline (drop p (c # cs)) \<noteq> None)" (is "?L \<longleftrightarrow> ?R")
    proof
      assume ?L
      then obtain q where q: "q < length cs" "if q = 0 then c = 10 else cs ! (q - 1) = 10"
        "match_headline (drop q cs) \<noteq> None" by blast
      have "(c # cs) ! q = 10" using q(2) by (cases q) (auto split: if_splits)
      then show ?R using q by (intro exI [of _ "Suc q"]) simp
    next
      assume ?R
      then obtain p where p: "p < length (c # cs)" "if p = 0 then bol else (c # cs) ! (p - 1) = 10"
        "match_headline (drop p (c # cs)) \<noteq> None" by blast
      from p no0 obtain q where pq: "p = Suc q" by (cases p) auto
      have "if q = 0 then c = 10 else cs ! (q - 1) = 10" using p(2) pq by (cases q) auto
      then show ?L using p pq by (intro exI [of _ q]) simp
    qed
    finally show ?thesis .
  qed
qed

lemma headline_sections_Nil: "headline_sections t = [] \<longleftrightarrow> \<not> (\<exists>p<length t. heading_at t p)"
proof -
  have "pair_up xs = [] \<longleftrightarrow> xs = []" for xs :: "str list"
    by (cases xs rule: pair_up.cases) auto
  then have "headline_sections t = [] \<longleftrightarrow> tl (re_split t) = []"
    by (simp add: headline_sections_def)
  also have "\<dots> \<longleftrightarrow> \<not> (\<exists>p<length t. heading_at t p)"
    using re_split_from_tl [of True "[]" t] by (auto simp: re_split_def heading_at_def)
  finally show ?thesis .
qed

lemma grouping_Nil: "grouping m cur ps = [] \<longleftrightarrow> cur = [] \<and> ps = []"
  using concat_grouping [of m cur ps] by (cases ps) (auto split: if_splits)

lemma split_markdown_Nil: "split_markdown t m = [] \<longleftrightarrow> headline_sections t = []"
  by (simp add: split_markdown_grouping grouping_Nil)

lemma match_headline_hd: "match_headline s \<noteq> None \<Longrightarrow> s \<noteq> [] \<and> hd s = 35"
proof -
  assume "match_headline s \<noteq> None"
  then obtain h r where m: "match_headline s = Some (h, r)" by auto
  from match_headline_Some [OF m] show ?thesis by (cases h) auto
qed

lemma no_hash_no_heading: "35 \<notin> set t \<Longrightarrow> \<not> (\<exists>p<length t. heading_at t p)"
proof
  assume n: "35 \<notin> set t" and "\<exists>p<length t. heading_at t p"
  then obtain p where p: "p < length t" "match_headline (drop p t) \<noteq> None"
    by (auto simp: heading_at_def)
  from match_headline_hd [OF p(2)] p(1) have "t ! p = 35" by (simp add: hd_drop_conv_nth)
  with p(1) n show False by (metis nth_mem)
qed

lemma hd_re_split_from: "\<exists>x. hd (re_split_from bol piece s) = piece @ x"
proof (induction bol piece s rule: re_split_from.induct)
  case (1 bol piece)
  show ?case by simp
next
  case (2 bol piece c cs)
  show ?case
  proof (cases "if bol then match_headline (c # cs) else None")
    case None
    with 2(1) [OF None] show ?thesis by auto
  next
    case (Some x)
    then show ?thesis by (cases x) simp
  qed
qed

lemma tl_re_split_from_drop:
  "tl (re_split_from bol piece s) =
   tl (re_split_from True [] (drop (length (hd (re_split_from bol piece s)) - length piece) s))"
proof (induction bol piece s rule: re_split_from.induct)
  case (1 bol piece)
  show ?case by simp
next
  case (2 bol piece c cs)
  show ?case
  proof (cases "if bol then match_headline (c # cs) else None")
    case None
    let ?R = "re_split_from (c = 10) (piece @ [c]) cs"
    obtain x where x: "hd ?R = (piece @ [c]) @ x"
      using hd_re_split_from by blast
    have R: "re_split_from bol piece (c # cs) = ?R" using None by simp
    have "tl ?R = tl (re_split_from True [] (drop (length x) cs))"
      using 2(1) [OF None] x by simp
    then show ?thesis using x R by simp
  next
    case (Some x)
    then have bol by (auto split: if_splits)
    with Some show ?thesis by (cases x) simp
  qed
qed

lemma split_markdown_drop_preamble:
  "split_markdown (drop (length (hd (re_split t))) t) m = split_markdown t m"
  using tl_re_split_from_drop [of True "[]" t]
  by (simp add: split_markdown_grouping headline_sections_def re_split_def)

lemma no_heading_re_split_from:
  "\<forall>c \<in> set s. c \<noteq> 35 \<Longrightarrow> re_split_from bol piece s = [piece @ s]"
proof (induction s arbitrary: bol piece)
  case Nil
  show ?case by simp
next
  case (Cons c cs)
  have "match_headline (c # cs) = None" using Cons.prems by (simp add: match_headline_def)
  then show ?case using Cons by simp
qed

lemma rsf_line: "10 \<notin> set l \<Longrightarrow> re_split_from False piece (l @ 10 # r) = re_split_from True (piece @ l @ [10]) r"
  by (induction l arbitrary: piece) auto

lemma codepoints_example:
  "codepoints ''# A\<newline>short\<newline># B\<newline>'' = [35, 32, 65, 10, 115, 104, 111, 114, 116, 10, 35, 32, 66, 10]"
  by (simp add: codepoints_def)

lemma re_split_example:
  assumes "\<forall>c \<in> set xs. c \<noteq> 35"
  shows "re_split ([35, 32, 65, 10, 115, 104, 111, 114, 116, 10, 35, 32, 66, 10] @ xs) =
     [[], [35, 32, 65], [10, 115, 104, 111, 114, 116, 10], [35, 32, 66], 10 # xs]"
  using no_heading_re_split_from [OF assms, of True "[10]"]
  by (simp add: re_split_def match_headline_def is_space_def)

lemma strip_id:
  assumes "s \<noteq> []" and "\<not> is_space (hd s)" and "\<not> is_space (last s)"
  shows "strip s = s"
proof -
  have d: "dropWhile P xs = xs" if "xs \<noteq> []" "\<not> P (hd xs)" for P and xs :: str
    using that by (cases xs) auto
  have "dropWhile is_space s = s" using assms(1,2) by (rule d)
  moreover have "dropWhile is_space (rev s) = rev s"
    using assms(1,3) by (intro d) (simp_all add: hd_rev)
  ultimately show ?thesis by (simp add: strip_def)
qed

lemma flat_concat: "concat (map flat gs) = flat (concat gs)"
  by (induction gs) auto

lemma space_no_hash: "\<forall>c \<in> set t. is_space c \<Longrightarrow> 35 \<notin> set t"
  by (auto simp: is_space_def)

lemma heading_from_Suc: "heading_from bol (c # cs) (Suc q) = heading_from (c = 10) cs q"
  by (cases q) (auto simp: heading_from_def)

lemma heading_from_0: "heading_from bol s 0 = (bol \<and> match_headline s \<noteq> None)"
  by (simp add: heading_from_def)

lemma heading_at_from: "heading_at t p = heading_from True t p"
  by (auto simp: heading_from_def heading_at_def)

lemma preamble_first_heading_from:
  "length (hd (re_split_from bol piece s)) - length piece \<le> length s \<and>
   (\<forall>p<length (hd (re_split_from bol piece s)) - length piece. \<not> heading_from bol s p) \<and>
   (length (hd (re_split_from bol piece s)) - length piece < length s \<longrightarrow>
      heading_from bol s (length (hd (re_split_from bol piece s)) - length piece))"
proof (induction bol piece s rule: re_split_from.induct)
  case (1 bol piece)
  show ?case by simp
next
  case (2 bol piece c cs)
  show ?case
  proof (cases "if bol then match_headline (c # cs) else None")
    case (Some x)
    then have "heading_from bol (c # cs) 0"
      unfolding heading_from_0 by (auto split: if_splits)
    moreover have "hd (re_split_from bol piece (c # cs)) = piece" using Some by (cases x) simp
    ultimately show ?thesis by simp
  next
    case None
    let ?R = "re_split_from (c = 10) (piece @ [c]) cs"
    obtain x where x: "hd ?R = (piece @ [c]) @ x" using hd_re_split_from by blast
    have R: "re_split_from bol piece (c # cs) = ?R" using None by simp
    have k: "length (hd (re_split_from bol piece (c # cs))) - length piece = Suc (length x)"
      using R x by simp
    have k': "length (hd ?R) - length (piece @ [c]) = length x" using x by simp
    note IH = 2(1) [OF None, unfolded k']
    have no0: "\<not> heading_from bol (c # cs) 0"
      unfolding heading_from_0 using None by (auto split: if_splits)
    have a: "Suc (length x) \<le> length (c # cs)" using IH by simp
    have b: "\<forall>p<Suc (length x). \<not> heading_from bol (c # cs) p"
    proof (intro allI impI)
      fix p assume p: "p < Suc (length x)"
      show "\<not> heading_from bol (c # cs) p"
      proof (cases p)
        case 0
        then show ?thesis using no0 by simp
      next
        case (Suc q)
        then have "q < length x" using p by simp
        then show ?thesis using IH Suc by (simp add: heading_from_Suc)
      qed
    qed
    have c: "Suc (length x) < length (c # cs) \<longrightarrow> heading_from bol (c # cs) (Suc (length x))"
      using IH by (simp add: heading_from_Suc)
    show ?thesis unfolding k using a b c by blast
  qed
qed

lemma preamble_first_heading:
  "length (hd (re_split t)) \<le> length t \<and>
   (\<forall>p<length (hd (re_split t)). \<not> heading_at t p) \<and>
   (length (hd (re_split t)) < length t \<longrightarrow> heading_at t (length (hd (re_split t))))"
  using preamble_first_heading_from [of True "[]" t]
  by (simp add: re_split_def heading_at_from)

lemma sections_example:
  "headline_sections (codepoints ''# A\<newline>x\<newline># B\<newline>y'') =
     [(codepoints ''# A'', codepoints ''\<newline>x\<newline>''), (codepoints ''# B'', codepoints ''\<newline>y'')]"
  by (simp add: headline_sections_def re_split_def match_headline_def is_space_def codepoints_def)

lemma re_split_intro:
  "re_split (codepoints ''intro\<newline># A\<newline>body'') =
     [codepoints ''intro\<newline>'', codepoints ''# A'', codepoints ''\<newline>body'']"
  by (simp add: re_split_def match_headline_def is_space_def codepoints_def)

lemma split_markdown_intro:
  "split_markdown (codepoints ''intro\<newline># A\<newline>body'') 750 = [codepoints ''# A\<newline>body'']"
  by (simp add: split_markdown_def re_split_intro add_section_def)
    (simp add: strip_def is_space_def codepoints_def)

lemma normalize_whitespace_intro:
  "normalize_whitespace (codepoints ''intro\<newline># A\<newline>body'') = codepoints ''intro\<newline># A\<newline>body''"
  by (simp add: normalize_whitespace_def splitlines_def codepoints_def is_linebreak_def
      is_space_def strip_def)

lemma runs_whole_text:
  assumes "pre @ runs = t" and "length pre \<le> length t"
    and "\<forall>p<length pre. \<not> heading_at t p"
    and "length pre < length t \<longrightarrow> heading_at t (length pre)"
  shows "runs = t \<longleftrightarrow> t = [] \<or> heading_at t 0"
proof -
  have a: "runs = t \<longleftrightarrow> pre = []" using assms(1) by auto
  have "pre = [] \<longleftrightarrow> t = [] \<or> heading_at t 0"
  proof
    assume "pre = []"
    then show "t = [] \<or> heading_at t 0" using assms(4) by (cases t) auto
  next
    assume "t = [] \<or> heading_at t 0"
    then show "pre = []"
    proof
      assume "t = []"
      then show ?thesis using assms(2) by simp
    next
      assume h: "heading_at t 0"
      show ?thesis
      proof (rule ccontr)
        assume "pre \<noteq> []"
        then have "0 < length pre" by simp
        with assms(3) h show False by blast
      qed
    qed
  qed
  with a show ?thesis by simp
qed

section \<open>Properties of the discoverer, the driver and the fetcher\<close>

lemma entries_loop_eq:
  "fst (entries_loop base_url l2_list (urls, count)) =
   urls @ map (\<lambda>url. base_url @ url) (List.map_filter present_url l2_list)"
proof (induction l2_list arbitrary: urls count)
  case Nil
  show ?case by (simp add: List.map_filter_simps)
next
  case (Cons i l2_list)
  show ?case
  proof (cases "i (codepoints ''url'')")
    case None
    then show ?thesis using Cons by (simp add: get_url_def present_url_def List.map_filter_simps)
  next
    case (Some v)
    then show ?thesis using Cons
      by (cases v) (simp_all add: get_url_def present_url_def List.map_filter_simps)
  qed
qed

lemma map_filter_append: "List.map_filter f (xs @ ys) = List.map_filter f xs @ List.map_filter f ys"
  by (simp add: List.map_filter_def)

lemma sections_loop_eq:
  "sections_loop base_url tree urls =
   urls @ map (\<lambda>url. base_url @ url) (List.map_filter present_url (concat (map entries tree)))"
proof (induction tree arbitrary: urls)
  case Nil
  show ?case by (simp add: List.map_filter_simps)
next
  case (Cons l1 tree)
  show ?case by (simp add: Cons entries_loop_eq map_filter_append)
qed

lemma process_urls_eq:
  "process_urls docs (chunks, log) = (chunks', log') \<Longrightarrow>
   chunks' = chunks @ concat (map (\<lambda>(url, outcome). chunks_of outcome) docs) \<and>
   failures log' = failures log @ failed_urls docs \<and>
   length log' = length log + length docs"
proof (induction docs arbitrary: chunks log)
  case Nil
  then show ?case by (simp add: failed_urls_def)
next
  case (Cons d docs)
  obtain url outcome where d: "d = (url, outcome)" by (cases d)
  show ?case
  proof (cases outcome)
    case (Inl e)
    with Cons.prems d have "process_urls docs (chunks, log @ [Error_failed url]) = (chunks', log')"
      by simp
    from Cons.IH [OF this] show ?thesis using d Inl
      by (simp add: chunks_of_def failures_def failed_urls_def)
  next
    case (Inr content)
    with Cons.prems d have "process_urls docs (chunks @ split_markdown content 750,
        log @ [Info_got (length (split_markdown content 750)) url]) = (chunks', log')"
      by (simp add: Let_def)
    from Cons.IH [OF this] show ?thesis using d Inr
      by (simp add: chunks_of_def failures_def failed_urls_def)
  qed
qed

lemma fetch_url_unfold:
  "fetch_url get =
     (case fetch_url_body (get (Suc 0)) of
        Inr v \<Rightarrow> (Inr v, Suc 0)
      | Inl e1 \<Rightarrow>
          (case fetch_url_body (get (Suc (Suc 0))) of
             Inr v \<Rightarrow> (Inr v, Suc (Suc 0))
           | Inl e2 \<Rightarrow> (fetch_url_body (get (Suc (Suc (Suc 0)))), Suc (Suc (Suc 0)))))"
  by (simp add: fetch_url_def numeral_2_eq_2 split: sum.splits)

lemma fetch_url_body_simps:
  "fetch_url_body (Inr rep) = Inr (resp_text rep)" "fetch_url_body (Inl e) = Inl e"
  by (simp_all add: fetch_url_body_def)

section \<open>Properties of the postprocessing\<close>

lemma linebreak_10: "is_linebreak 10"
  by (simp add: is_linebreak_def)

lemma linebreak_space: "is_linebreak c \<Longrightarrow> is_space c"
  by (auto simp: is_linebreak_def is_space_def)

lemma splitlines_from_lines:
  "l \<in> set (splitlines_from acc s) \<Longrightarrow> \<forall>c \<in> set acc. \<not> is_linebreak c \<Longrightarrow> \<forall>c \<in> set l. \<not> is_linebreak c"
proof (induction acc s rule: splitlines_from.induct)
  case (1 line)
  then show ?case by (auto split: if_splits)
next
  case (2 line c cs)
  show ?case
  proof (cases "is_linebreak c")
    case True
    with 2(3) have "l = line \<or> l \<in> set (splitlines_from [] (if c = 13 \<and> cs \<noteq> [] \<and> hd cs = 10 then tl cs else cs))"
      by simp
    then show ?thesis using 2(1) [OF True] 2(4) by auto
  next
    case False
    with 2(3) have "l \<in> set (splitlines_from (line @ [c]) cs)" by simp
    moreover have "\<forall>c \<in> set (line @ [c]). \<not> is_linebreak c" using False 2(4) by simp
    ultimately show ?thesis using 2(2) [OF False] by blast
  qed
qed

lemma last_dropWhile: "dropWhile P xs \<noteq> [] \<Longrightarrow> last (dropWhile P xs) = last xs"
  by (induction xs) (auto split: if_splits)

lemma hd_dropWhile_not: "dropWhile P xs \<noteq> [] \<Longrightarrow> \<not> P (hd (dropWhile P xs))"
  using hd_dropWhile by blast

lemma set_strip: "set (strip l) \<subseteq> set l"
proof -
  have "set (strip l) = set (dropWhile is_space (rev (dropWhile is_space l)))"
    by (simp add: strip_def)
  also have "\<dots> \<subseteq> set (rev (dropWhile is_space l))" by (rule set_dropWhileD [THEN subsetI])
  also have "\<dots> \<subseteq> set l" using set_dropWhileD [of _ is_space l] by auto
  finally show ?thesis .
qed

lemma strip_ends: "strip l = [] \<or> (\<not> is_space (hd (strip l)) \<and> \<not> is_space (last (strip l)))"
proof (cases "strip l = []")
  case True
  then show ?thesis by simp
next
  case False
  let ?d = "dropWhile is_space l"
  let ?e = "dropWhile is_space (rev ?d)"
  have s: "strip l = rev ?e" by (simp add: strip_def)
  with False have e: "?e \<noteq> []" by simp
  have d: "?d \<noteq> []"
  proof
    assume "?d = []"
    then have "?e = []" by (simp only: rev.simps dropWhile.simps)
    with e show False by blast
  qed
  have "\<not> is_space (hd ?e)" using e by (rule hd_dropWhile_not)
  then have l: "\<not> is_space (last (strip l))" using s e by (simp add: last_rev)
  have "last ?e = last (rev ?d)" using e by (rule last_dropWhile)
  also have "\<dots> = hd ?d" using d by (simp add: last_rev)
  finally have "hd (strip l) = hd ?d" using s e by (simp add: hd_rev)
  moreover have "\<not> is_space (hd ?d)" using d by (rule hd_dropWhile_not)
  ultimately show ?thesis using l by simp
qed

lemma clean_strip: "\<forall>c \<in> set l. \<not> is_linebreak c \<Longrightarrow> clean_line (strip l)"
  using set_strip [of l] strip_ends [of l] by (auto simp: clean_line_def)

lemma clean_Nil: "clean_line []"
  by (simp add: clean_line_def)

lemma strip_Nil: "strip [] = []"
  by (simp add: strip_def)

lemma strip_clean: "clean_line l \<Longrightarrow> strip l = l"
  by (cases "l = []") (auto simp: clean_line_def strip_Nil intro: strip_id)

lemma clean_lines_normalize: "l \<in> set (map strip (splitlines s)) \<Longrightarrow> clean_line l"
  using splitlines_from_lines [of _ "[]" s] by (auto simp: splitlines_def intro!: clean_strip)


lemma splitlines_from_append:
  "\<forall>c \<in> set l. \<not> is_linebreak c \<Longrightarrow> splitlines_from acc (l @ r) = splitlines_from (acc @ l) r"
  by (induction l arbitrary: acc) auto

lemma splitlines_from_line:
  assumes "\<forall>c \<in> set l. \<not> is_linebreak c"
  shows "splitlines_from acc (l @ 10 # r) = (acc @ l) # splitlines_from [] r"
  using splitlines_from_append [OF assms, of acc "10 # r"] by (simp add: linebreak_10)

lemma splitlines_from_last:
  assumes "\<forall>c \<in> set l. \<not> is_linebreak c"
  shows "splitlines_from acc l = (if acc @ l = [] then [] else [acc @ l])"
  using splitlines_from_append [OF assms, of acc "[]"] by simp

lemma splitlines_join:
  "\<forall>l \<in> set M. \<forall>c \<in> set l. \<not> is_linebreak c \<Longrightarrow>
   splitlines (join_newline M) = drop_last_empty M"
proof (induction M rule: join_newline.induct)
  case 1
  show ?case by (simp add: splitlines_def drop_last_empty_def)
next
  case (2 line)
  then show ?case by (simp add: splitlines_def drop_last_empty_def splitlines_from_last)
next
  case (3 line next_line lines)
  then have "splitlines (join_newline (next_line # lines)) = drop_last_empty (next_line # lines)"
    by simp
  moreover have "\<forall>c \<in> set line. \<not> is_linebreak c" using 3(2) by simp
  ultimately show ?case
    by (simp add: splitlines_def splitlines_from_line drop_last_empty_def)
qed

lemma join_newline_snoc: "M \<noteq> [] \<Longrightarrow> join_newline (M @ [l]) = join_newline M @ 10 # l"
  by (induction M rule: join_newline.induct) auto

lemma last_not_in: "x \<notin> set l \<Longrightarrow> l \<noteq> [] \<Longrightarrow> last l \<noteq> x"
  by (metis last_in_set)

lemma drop_last_empty_snoc:
  "drop_last_empty (M' @ [l]) = (if l = [] then M' else M' @ [l])"
  by (simp add: drop_last_empty_def)

lemma chop_newline_snoc:
  "10 \<notin> set l \<Longrightarrow> chop_newline (u @ 10 # l) = (if l = [] then u else u @ 10 # l)"
proof (cases "l = []")
  case True
  then show ?thesis by (simp add: chop_newline_def)
next
  case False
  assume "10 \<notin> set l"
  then have "last l \<noteq> 10" using False by (rule last_not_in)
  then show ?thesis using False by (simp add: chop_newline_def)
qed

lemma chop_newline_line: "10 \<notin> set l \<Longrightarrow> chop_newline l = l"
  using last_not_in [of 10 l] by (auto simp: chop_newline_def)

lemma join_drop_last_empty:
  assumes "\<forall>l \<in> set M. 10 \<notin> set l"
  shows "join_newline (drop_last_empty M) = chop_newline (join_newline M)"
proof (cases M rule: rev_cases)
  case Nil
  then show ?thesis by (simp add: drop_last_empty_def chop_newline_def)
next
  case (snoc M' l)
  have l: "10 \<notin> set l" using assms snoc by simp
  show ?thesis
  proof (cases "M' = []")
    case True
    have "join_newline (drop_last_empty [l]) = l"
      by (simp add: drop_last_empty_def)
    then show ?thesis unfolding snoc True using chop_newline_line [OF l] by simp
  next
    case False
    have "join_newline (drop_last_empty (M' @ [l])) = (if l = [] then join_newline M' else join_newline M' @ 10 # l)"
      by (simp add: drop_last_empty_snoc join_newline_snoc [OF False])
    then show ?thesis unfolding snoc
      by (simp only: join_newline_snoc [OF False] chop_newline_snoc [OF l])
  qed
qed

lemma split_newline_from_ne: "split_newline_from acc t \<noteq> []"
  by (induction t arbitrary: acc) auto

lemma join_split_newline_from: "join_newline (split_newline_from acc t) = acc @ t"
proof (induction t arbitrary: acc)
  case Nil
  show ?case by simp
next
  case (Cons c cs)
  obtain x xs where x: "split_newline_from [] cs = x # xs"
    using split_newline_from_ne [of "[]" cs] by (cases "split_newline_from [] cs") auto
  show ?case
  proof (cases "c = 10")
    case True
    have "join_newline (acc # x # xs) = acc @ 10 # join_newline (x # xs)" by simp
    then show ?thesis using True x Cons [of "[]"] by simp
  next
    case False
    then show ?thesis using Cons [of "acc @ [c]"] by simp
  qed
qed

lemma split_newline_from_dropWhile:
  "set (split_newline_from [] (dropWhile (\<lambda>d. d = 10) cs)) \<subseteq> {[]} \<union> set (split_newline_from [] cs)"
proof (induction cs)
  case Nil
  show ?case by simp
next
  case (Cons c cs)
  show ?case
  proof (cases "c = 10")
    case True
    then show ?thesis using Cons by auto
  next
    case False
    then show ?thesis by auto
  qed
qed

lemma split_newline_from_sub:
  "set (split_newline_from acc (sub_newlines t)) \<subseteq> {[]} \<union> set (split_newline_from acc t)"
proof (induction t arbitrary: acc rule: sub_newlines.induct)
  case 1
  show ?case by simp
next
  case (2 c cs)
  show ?case
  proof (cases "c = 10 \<and> cs \<noteq> [] \<and> hd cs = 10")
    case True
    let ?X = "sub_newlines (dropWhile (\<lambda>d. d = 10) cs)"
    have "set (split_newline_from [] ?X) \<subseteq> {[]} \<union> set (split_newline_from [] (dropWhile (\<lambda>d. d = 10) cs))"
      using 2(1) [OF True] .
    also have "\<dots> \<subseteq> {[]} \<union> set (split_newline_from [] cs)"
      using split_newline_from_dropWhile [of cs] by blast
    finally have X: "set (split_newline_from [] ?X) \<subseteq> {[]} \<union> set (split_newline_from [] cs)" .
    have l: "split_newline_from acc (sub_newlines (c # cs)) = acc # [] # split_newline_from [] ?X"
      using True by simp
    have r: "split_newline_from acc (c # cs) = acc # split_newline_from [] cs"
      using True by simp
    show ?thesis unfolding l r using X by auto
  next
    case False
    have l: "sub_newlines (c # cs) = c # sub_newlines cs" using False by auto
    show ?thesis
    proof (cases "c = 10")
      case True
      then show ?thesis unfolding l using 2(2) [OF False, of "[]"] by auto
    next
      case c: False
      then show ?thesis unfolding l using 2(2) [OF False, of "acc @ [c]"] by simp
    qed
  qed
qed

lemma split_newline_from_append:
  "10 \<notin> set l \<Longrightarrow> split_newline_from acc (l @ r) = split_newline_from (acc @ l) r"
  by (induction l arbitrary: acc) auto

lemma split_newline_from_join:
  "\<forall>l \<in> set L. 10 \<notin> set l \<Longrightarrow>
   set (split_newline_from acc (join_newline L)) \<subseteq> {[], acc} \<union> (\<lambda>l. acc @ l) ` set L \<union> set L"
proof (induction L arbitrary: acc rule: join_newline.induct)
  case 1
  show ?case by simp
next
  case (2 line)
  then show ?case using split_newline_from_append [of line acc "[]"] by simp
next
  case (3 line next_line lines)
  have "split_newline_from acc (join_newline (line # next_line # lines)) =
        (acc @ line) # split_newline_from [] (join_newline (next_line # lines))"
    using 3(2) split_newline_from_append [of line acc "10 # join_newline (next_line # lines)"] by simp
  moreover have "set (split_newline_from [] (join_newline (next_line # lines))) \<subseteq>
      {[], []} \<union> (\<lambda>l. [] @ l) ` set (next_line # lines) \<union> set (next_line # lines)"
    using 3(2) by (intro 3(1)) simp
  ultimately show ?case by auto
qed

lemma sub_newlines_Nil: "sub_newlines t = [] \<longleftrightarrow> t = []"
  by (cases t) auto

lemma hd_sub_newlines: "hd (sub_newlines t) = hd t"
  by (cases t) auto

lemma no_triple_Cons:
  "no_triple_newline r \<Longrightarrow> c \<noteq> 10 \<or> r = [] \<or> hd r \<noteq> 10 \<Longrightarrow> no_triple_newline (c # r)"
proof (cases r)
  case Nil
  then show ?thesis by simp
next
  case (Cons a r')
  assume "no_triple_newline r" "c \<noteq> 10 \<or> r = [] \<or> hd r \<noteq> 10"
  then show ?thesis using Cons by (cases r') auto
qed

lemma no_triple_two:
  "no_triple_newline r \<Longrightarrow> r = [] \<or> hd r \<noteq> 10 \<Longrightarrow> no_triple_newline (10 # 10 # r)"
proof (cases r)
  case Nil
  then show ?thesis by simp
next
  case (Cons a r')
  assume "no_triple_newline r" "r = [] \<or> hd r \<noteq> 10"
  then have "no_triple_newline (10 # r)" by (intro no_triple_Cons) auto
  then show ?thesis using Cons \<open>r = [] \<or> hd r \<noteq> 10\<close> by simp
qed

lemma dropWhile_hd: "dropWhile P xs = [] \<or> \<not> P (hd (dropWhile P xs))"
  using hd_dropWhile by blast

lemma no_triple_sub_newlines: "no_triple_newline (sub_newlines t)"
proof (induction t rule: sub_newlines.induct)
  case 1
  show ?case by simp
next
  case (2 c cs)
  show ?case
  proof (cases "c = 10 \<and> cs \<noteq> [] \<and> hd cs = 10")
    case True
    let ?d = "dropWhile (\<lambda>d. d = 10) cs"
    have "sub_newlines ?d = [] \<or> hd (sub_newlines ?d) \<noteq> 10"
      using dropWhile_hd [of "\<lambda>d. d = 10" cs] by (auto simp: sub_newlines_Nil hd_sub_newlines)
    then have "no_triple_newline (10 # 10 # sub_newlines ?d)"
      using 2(1) [OF True] by (intro no_triple_two)
    then show ?thesis using True by simp
  next
    case False
    have l: "sub_newlines (c # cs) = c # sub_newlines cs" using False by auto
    have "c \<noteq> 10 \<or> sub_newlines cs = [] \<or> hd (sub_newlines cs) \<noteq> 10"
      using False by (auto simp: sub_newlines_Nil hd_sub_newlines)
    then show ?thesis unfolding l using 2(2) [OF False] by (intro no_triple_Cons)
  qed
qed

lemma no_triple_tl: "no_triple_newline (c # r) \<Longrightarrow> no_triple_newline r"
proof (cases r)
  case Nil
  then show ?thesis by simp
next
  case (Cons a r')
  assume "no_triple_newline (c # r)"
  then show ?thesis using Cons by (cases r') auto
qed

lemma sub_newlines_id: "no_triple_newline t \<Longrightarrow> sub_newlines t = t"
proof (induction t rule: sub_newlines.induct)
  case 1
  show ?case by simp
next
  case (2 c cs)
  show ?case
  proof (cases "c = 10 \<and> cs \<noteq> [] \<and> hd cs = 10")
    case True
    then obtain cs' where cs: "cs = 10 # cs'" by (cases cs) auto
    have nt: "no_triple_newline (10 # 10 # cs')" using 2(3) True cs by simp
    then have h: "cs' = [] \<or> hd cs' \<noteq> 10" by (cases cs') auto
    then have d: "dropWhile (\<lambda>d. d = 10) cs = cs'" using cs by (cases cs') auto
    have "no_triple_newline cs'" using nt by (blast dest: no_triple_tl)
    then have "sub_newlines cs' = cs'" using 2(1) [OF True] d by simp
    then show ?thesis using True cs d by simp
  next
    case False
    have "sub_newlines cs = cs" using 2(2) [OF False] 2(3) by (blast dest: no_triple_tl)
    then show ?thesis using False by auto
  qed
qed

lemma no_triple_butlast: "no_triple_newline t \<Longrightarrow> no_triple_newline (butlast t)"
proof (induction t rule: no_triple_newline.induct)
  case (1 a b c r)
  show ?case
  proof (cases r)
    case Nil
    then show ?thesis by simp
  next
    case (Cons d r')
    have "no_triple_newline (butlast (b # c # r))" using 1 by simp
    then have "no_triple_newline (b # c # butlast r)" using Cons by simp
    moreover have "\<not> (a = 10 \<and> b = 10 \<and> c = 10)" using 1(2) by simp
    ultimately have "no_triple_newline (a # b # c # butlast r)" by simp
    then show ?thesis using Cons by simp
  qed
qed simp_all

lemma no_triple_chop: "no_triple_newline t \<Longrightarrow> no_triple_newline (chop_newline t)"
  by (simp add: chop_newline_def no_triple_butlast)

lemma clean_no_linebreak: "clean_line l \<Longrightarrow> \<forall>c \<in> set l. \<not> is_linebreak c"
  by (simp add: clean_line_def)

lemma clean_no_newline: "clean_line l \<Longrightarrow> 10 \<notin> set l"
  using linebreak_10 by (auto simp: clean_line_def)

lemma set_drop_last_empty: "set (drop_last_empty M) \<subseteq> set M"
  by (auto simp: drop_last_empty_def dest: in_set_butlastD)

lemma normalize_clean:
  assumes "\<forall>l \<in> set M. clean_line l" and "no_triple_newline (join_newline M)"
  shows "normalize_whitespace (join_newline M) = chop_newline (join_newline M)"
proof -
  have lb: "\<forall>l \<in> set M. \<forall>c \<in> set l. \<not> is_linebreak c"
    using assms(1) clean_no_linebreak by blast
  have nl: "\<forall>l \<in> set M. 10 \<notin> set l" using assms(1) clean_no_newline by blast
  have "map strip (drop_last_empty M) = drop_last_empty M"
    using assms(1) set_drop_last_empty [of M] by (intro map_idI strip_clean) blast
  then have "normalize_whitespace (join_newline M) = sub_newlines (join_newline (drop_last_empty M))"
    by (simp add: normalize_whitespace_def splitlines_join [OF lb])
  also have "\<dots> = sub_newlines (chop_newline (join_newline M))"
    by (simp add: join_drop_last_empty [OF nl])
  also have "\<dots> = chop_newline (join_newline M)"
    using assms(2) by (intro sub_newlines_id no_triple_chop)
  finally show ?thesis .
qed

section \<open>Properties of the sink\<close>






































section \<open>The claims about the chunker\<close>

text \<open>
  Claim C1, as amended. The claim says that the chunks of a normalized text, put
  together in order, give the text back up to the whitespace stripped from each chunk.
  The loop starts at index 1 of the split list, so the text before the first heading
  line is in no chunk. What holds, for every text and every \<open>max_chunk_size\<close>: the
  chunks are the stripped texts of consecutive runs of whole headline sections; the
  unstripped runs, in order and after the first piece of the split, give the text back
  exactly; this first piece is the text before the first heading line (no position in
  it starts a heading line, and where it ends short of the whole text a heading line
  starts); so the runs alone give the whole text back exactly when the text is empty
  or starts with a heading line.
\<close>

theorem lossless_from_first_heading:
  "split_markdown t m = map (\<lambda>g. strip (flat g)) (grouping m [] (headline_sections t)) \<and>
   hd (re_split t) @ concat (map flat (grouping m [] (headline_sections t))) = t \<and>
   (\<forall>p<length (hd (re_split t)). \<not> heading_at t p) \<and>
   (length (hd (re_split t)) < length t \<longrightarrow> heading_at t (length (hd (re_split t)))) \<and>
   (concat (map flat (grouping m [] (headline_sections t))) = t \<longleftrightarrow> t = [] \<or> heading_at t 0)"
proof -
  let ?pre = "hd (re_split t)"
  let ?runs = "concat (map flat (grouping m [] (headline_sections t)))"
  have r: "?pre @ ?runs = t"
    by (simp add: flat_concat concat_grouping re_split_sections)
  note p = preamble_first_heading [of t]
  have "?runs = t \<longleftrightarrow> t = [] \<or> heading_at t 0"
    using r p by (intro runs_whole_text [of ?pre]) blast+
  then show ?thesis using r p by (simp add: split_markdown_grouping)
qed

theorem lossless_from_first_heading_witness:
  "hd (re_split (codepoints ''intro\<newline># A\<newline>body'')) = codepoints ''intro\<newline>'' \<and>
   split_markdown (codepoints ''intro\<newline># A\<newline>body'') 750 = [codepoints ''# A\<newline>body''] \<and>
   \<not> heading_at (codepoints ''intro\<newline># A\<newline>body'') 0 \<and>
   heading_at (codepoints ''intro\<newline># A\<newline>body'') 6"
proof -
  let ?t = "codepoints ''intro\<newline># A\<newline>body''"
  have l: "length (hd (re_split ?t)) = 6" "length ?t = 14"
    unfolding re_split_intro by (simp_all add: codepoints_def)
  then have "(0::nat) < length (hd (re_split ?t))" "length (hd (re_split ?t)) < length ?t"
    by simp_all
  with lossless_from_first_heading [of ?t 750]
  have "\<not> heading_at ?t 0" "heading_at ?t (length (hd (re_split ?t)))" by blast+
  then have "\<not> heading_at ?t 0" "heading_at ?t 6" using l by simp_all
  with re_split_intro split_markdown_intro show ?thesis by simp
qed

text \<open>
  The claim as stated fails on the normalized text \<^verbatim>\<open>"intro\n# A\nbody"\<close>: the only
  chunk is \<^verbatim>\<open>"# A\nbody"\<close>, and the characters of \<^verbatim>\<open>intro\<close>, which are not whitespace,
  are lost.
\<close>

theorem lossless_counterexample:
  "normalize_whitespace (codepoints ''intro\<newline># A\<newline>body'') = codepoints ''intro\<newline># A\<newline>body'' \<and>
   split_markdown (codepoints ''intro\<newline># A\<newline>body'') 750 = [codepoints ''# A\<newline>body''] \<and>
   non_space (concat (split_markdown (codepoints ''intro\<newline># A\<newline>body'') 750)) \<noteq>
   non_space (codepoints ''intro\<newline># A\<newline>body'')"
proof -
  have "non_space (codepoints ''# A\<newline>body'') \<noteq> non_space (codepoints ''intro\<newline># A\<newline>body'')"
    by (simp add: non_space_def is_space_def codepoints_def)
  with split_markdown_intro normalize_whitespace_intro show ?thesis by simp
qed

text \<open>
  Claim C2. Every chunk is the stripped text of a run of whole headline sections, and
  the runs in order are the list of all sections, so no section is cut. A chunk made
  of more than one section is at most \<open>max_chunk_size\<close> long; a chunk longer than
  \<open>max_chunk_size\<close> is made of one section, which alone is longer than the bound.
\<close>

theorem soft_size_bound:
  "split_markdown t m = map (\<lambda>g. strip (flat g)) (grouping m [] (headline_sections t)) \<and>
   concat (grouping m [] (headline_sections t)) = headline_sections t \<and>
   (\<forall>g \<in> set (grouping m [] (headline_sections t)).
      g \<noteq> [] \<and>
      (1 < length g \<longrightarrow> int (length (strip (flat g))) \<le> m) \<and>
      (m < int (length (strip (flat g))) \<longrightarrow> length g = 1 \<and> m < int (length (flat g))))"
proof (intro conjI ballI)
  show "split_markdown t m = map (\<lambda>g. strip (flat g)) (grouping m [] (headline_sections t))"
    by (rule split_markdown_grouping)
  show "concat (grouping m [] (headline_sections t)) = headline_sections t"
    by (simp add: concat_grouping)
next
  fix g assume g: "g \<in> set (grouping m [] (headline_sections t))"
  show ne: "g \<noteq> []" using g by (rule grouping_nonempty)
  have raw: "1 < length g \<Longrightarrow> int (length (flat g)) \<le> m"
    using grouping_bound [OF g] by simp
  have le: "int (length (strip (flat g))) \<le> int (length (flat g))"
    using length_strip [of "flat g"] by simp
  show many: "1 < length g \<longrightarrow> int (length (strip (flat g))) \<le> m"
    using raw le by linarith
  show "m < int (length (strip (flat g))) \<longrightarrow> length g = 1 \<and> m < int (length (flat g))"
  proof
    assume big: "m < int (length (strip (flat g)))"
    then have "\<not> 1 < length g" using many by linarith
    moreover have "length g \<noteq> 0" using ne by simp
    ultimately have "length g = 1" by linarith
    then show "length g = 1 \<and> m < int (length (flat g))" using big le by linarith
  qed
qed

theorem soft_size_bound_witness:
  "split_markdown (codepoints ''# A\<newline>x\<newline># B\<newline>y'') 750 = [codepoints ''# A\<newline>x\<newline># B\<newline>y''] \<and>
   grouping 750 [] (headline_sections (codepoints ''# A\<newline>x\<newline># B\<newline>y'')) =
     [[(codepoints ''# A'', codepoints ''\<newline>x\<newline>''), (codepoints ''# B'', codepoints ''\<newline>y'')]] \<and>
   int (length (codepoints ''# A\<newline>x\<newline># B\<newline>y'')) \<le> 750"
  using soft_size_bound [of "codepoints ''# A\<newline>x\<newline># B\<newline>y''" 750]
  by (simp add: sections_example) (simp add: codepoints_def strip_def is_space_def)

text \<open>
  Claim C3, as amended. \<open>split_markdown\<close> is a total function: it has a result on
  every text. The claim says that a text that is not empty gives at least one chunk;
  what holds is that the result has a chunk exactly when some position of the text
  starts a heading line. A text with no heading line, so every text made of whitespace
  only and the empty text, gives no chunk.
\<close>

theorem chunks_iff_heading:
  "(split_markdown t m \<noteq> [] \<longleftrightarrow> (\<exists>p<length t. heading_at t p)) \<and>
   ((\<forall>c \<in> set t. is_space c) \<longrightarrow> split_markdown t m = [])"
proof
  show "split_markdown t m \<noteq> [] \<longleftrightarrow> (\<exists>p<length t. heading_at t p)"
    by (simp add: split_markdown_Nil headline_sections_Nil)
  show "(\<forall>c \<in> set t. is_space c) \<longrightarrow> split_markdown t m = []"
    using no_hash_no_heading [of t] space_no_hash [of t]
    by (simp add: split_markdown_Nil headline_sections_Nil)
qed

theorem chunks_iff_heading_witness:
  "is_space 32 \<and> split_markdown [32, 32] 750 = [] \<and>
   heading_at (codepoints ''# A'') 0 \<and> split_markdown (codepoints ''# A'') 750 \<noteq> []"
proof -
  have sp: "is_space 32" by (simp add: is_space_def)
  then have "\<forall>c \<in> set [32, 32]. is_space c" by simp
  with chunks_iff_heading [of "[32, 32]" 750] have a: "split_markdown [32, 32] 750 = []" by blast
  have h: "heading_at (codepoints ''# A'') 0"
    by (simp add: heading_at_def match_headline_def is_space_def codepoints_def)
  moreover have "0 < length (codepoints ''# A'')" by (simp add: codepoints_def)
  ultimately have "\<exists>p<length (codepoints ''# A''). heading_at (codepoints ''# A'') p" by blast
  with chunks_iff_heading [of "codepoints ''# A''" 750]
  have "split_markdown (codepoints ''# A'') 750 \<noteq> []" by blast
  with sp a h show ?thesis by simp
qed

text \<open>
  The claim as stated fails on the text \<^verbatim>\<open>"intro"\<close>: it is not empty and
  \<open>split_markdown\<close> returns no chunk.
\<close>

theorem nonempty_text_no_chunk_counterexample:
  "codepoints ''intro'' \<noteq> [] \<and> split_markdown (codepoints ''intro'') 750 = []"
  by (simp add: split_markdown_def re_split_def match_headline_def codepoints_def)

text \<open>
  Claim C4. For the text \<^verbatim>\<open>"# A\nshort\n# B\n"\<close> followed by 800 characters \<^verbatim>\<open>x\<close>
  (code point 120) and \<open>max_chunk_size = 750\<close>, \<open>split_markdown\<close> returns the two
  chunks \<^verbatim>\<open>"# A\nshort"\<close> and \<^verbatim>\<open>"# B\n"\<close> followed by the 800 characters.
\<close>

theorem chunk_example:
  "split_markdown (codepoints ''# A\<newline>short\<newline># B\<newline>'' @ replicate 800 120) 750 =
     [codepoints ''# A\<newline>short'', codepoints ''# B\<newline>'' @ replicate 800 120]"
proof -
  have "\<forall>c \<in> set (replicate 800 (120::nat)). c \<noteq> 35" by simp
  from re_split_example [OF this]
  have "split_markdown ([35, 32, 65, 10, 115, 104, 111, 114, 116, 10, 35, 32, 66, 10] @ replicate 800 120) 750
      = [strip [35, 32, 65, 10, 115, 104, 111, 114, 116, 10], strip (35 # 32 # 66 # 10 # replicate 800 120)]"
    by (simp add: split_markdown_def add_section_def)
  moreover have "strip [35, 32, 65, 10, 115, 104, 111, 114, 116, 10] = [35, 32, 65, 10, 115, 104, 111, 114, 116]"
    by (simp add: strip_def is_space_def)
  moreover have "strip (35 # 32 # 66 # 10 # replicate 800 120) = 35 # 32 # 66 # 10 # replicate 800 120"
    by (rule strip_id) (simp_all add: is_space_def)
  ultimately show ?thesis
    by (simp add: codepoints_def)
qed

text \<open>
  Claim C10. Every chunk is a string that is not empty and starts with \<^verbatim>\<open>#\<close> (code
  point 35): it is the stripped text of a run of sections whose first section starts
  with a matched headline. The first piece of the split, the text before the first
  heading line, is a prefix of the text that holds no start of a heading line and ends
  where the first heading line starts (or is the whole text); the chunks of the text
  without this prefix are the chunks of the text, so nothing of it is in a chunk.
\<close>

theorem chunks_start_with_heading:
  "(\<forall>ch \<in> set (split_markdown t m). ch \<noteq> [] \<and> hd ch = 35) \<and>
   (\<forall>g \<in> set (grouping m [] (headline_sections t)). g \<noteq> [] \<and> fst (hd g) \<noteq> [] \<and> hd (fst (hd g)) = 35) \<and>
   (\<forall>p<length (hd (re_split t)). \<not> heading_at t p) \<and>
   (length (hd (re_split t)) < length t \<longrightarrow> heading_at t (length (hd (re_split t)))) \<and>
   take (length (hd (re_split t))) t = hd (re_split t) \<and>
   split_markdown (drop (length (hd (re_split t))) t) m = split_markdown t m"
proof (intro conjI)
  have grp: "g \<noteq> [] \<and> fst (hd g) \<noteq> [] \<and> hd (fst (hd g)) = 35"
    if g: "g \<in> set (grouping m [] (headline_sections t))" for g
  proof -
    have ne: "g \<noteq> []" using g by (rule grouping_nonempty)
    then have "hd g \<in> set g" by simp
    then have "hd g \<in> set (concat (grouping m [] (headline_sections t)))" using g by auto
    then have "(fst (hd g), snd (hd g)) \<in> set (headline_sections t)" by (simp add: concat_grouping)
    from headline_sections_headlines [OF this] ne show ?thesis by simp
  qed
  then show "\<forall>g \<in> set (grouping m [] (headline_sections t)). g \<noteq> [] \<and> fst (hd g) \<noteq> [] \<and> hd (fst (hd g)) = 35"
    by blast
  show "\<forall>ch \<in> set (split_markdown t m). ch \<noteq> [] \<and> hd ch = 35"
  proof
    fix ch assume "ch \<in> set (split_markdown t m)"
    then obtain g where g: "g \<in> set (grouping m [] (headline_sections t))" and ch: "ch = strip (flat g)"
      by (auto simp: split_markdown_grouping)
    from grp [OF g] obtain h c g' where gg: "g = (h, c) # g'" and h: "h \<noteq> []" "hd h = 35"
      by (cases g) auto
    have "flat g \<noteq> []" "hd (flat g) = 35" using gg h by simp_all
    moreover have "\<not> is_space 35" by (simp add: is_space_def)
    ultimately show "ch \<noteq> [] \<and> hd ch = 35" using strip_hd [of "flat g"] ch by simp
  qed
  show "\<forall>p<length (hd (re_split t)). \<not> heading_at t p"
    using preamble_first_heading [of t] by blast
  show "length (hd (re_split t)) < length t \<longrightarrow> heading_at t (length (hd (re_split t)))"
    using preamble_first_heading [of t] by blast
  show "take (length (hd (re_split t))) t = hd (re_split t)"
    using re_split_sections [of t] by (metis append_eq_conv_conj)
  show "split_markdown (drop (length (hd (re_split t))) t) m = split_markdown t m"
    by (rule split_markdown_drop_preamble)
qed

theorem chunks_start_with_heading_witness:
  "split_markdown (codepoints ''intro\<newline># A\<newline>body'') 750 = [codepoints ''# A\<newline>body''] \<and>
   hd (codepoints ''# A\<newline>body'') = 35 \<and>
   hd (re_split (codepoints ''intro\<newline># A\<newline>body'')) = codepoints ''intro\<newline>'' \<and>
   heading_at (codepoints ''intro\<newline># A\<newline>body'') 6 \<and>
   split_markdown (codepoints ''# A\<newline>body'') 750 = [codepoints ''# A\<newline>body'']"
proof -
  let ?t = "codepoints ''intro\<newline># A\<newline>body''"
  have d: "drop (length (hd (re_split ?t))) ?t = codepoints ''# A\<newline>body''"
    by (simp add: re_split_intro) (simp add: codepoints_def)
  have l: "length (hd (re_split ?t)) = 6" "length ?t = 14"
    unfolding re_split_intro by (simp_all add: codepoints_def)
  note th = chunks_start_with_heading [of ?t 750]
  from th split_markdown_intro d
  have a: "hd (codepoints ''# A\<newline>body'') = 35"
    and b: "split_markdown (codepoints ''# A\<newline>body'') 750 = [codepoints ''# A\<newline>body'']"
    by simp_all
  from th l have "heading_at ?t 6" by simp
  with a b split_markdown_intro re_split_intro show ?thesis by simp
qed


section \<open>The claims about the discoverer, the driver and the fetcher\<close>

text \<open>
  Claim C5. The loop of the discoverer visits the sections in order and the entries of
  each section in order, and adds \<open>base_url\<close> followed by the URL for exactly the
  entries whose \<^verbatim>\<open>url\<close> is present, not \<^verbatim>\<open>null\<close> and not empty; the other entries are
  skipped and the order of the rest is kept. The tree of the claim's example gives
  \<open>base_url\<close> followed by \<^verbatim>\<open>/a\<close>, \<^verbatim>\<open>/b\<close> and \<^verbatim>\<open>/c\<close>.
\<close>

theorem discoverer_order:
  "get_help_docs_urls base_url tree = discovered base_url tree \<and>
   get_help_docs_urls base_url example_tree =
     [base_url @ codepoints ''/a'', base_url @ codepoints ''/b'', base_url @ codepoints ''/c'']"
proof
  show eq: "get_help_docs_urls base_url tree = discovered base_url tree" for tree
    by (simp add: get_help_docs_urls_def discovered_def sections_loop_eq)
  show "get_help_docs_urls base_url example_tree =
     [base_url @ codepoints ''/a'', base_url @ codepoints ''/b'', base_url @ codepoints ''/c'']"
    by (simp add: get_help_docs_urls_def example_tree_def url_entry_def get_url_def)
      (simp add: codepoints_def)
qed

theorem discoverer_order_witness:
  "get_help_docs_urls (codepoints ''https://www.notion.so'')
     [\<lparr>entries = [Map.empty, url_entry (JString (codepoints ''/x'')), url_entry (JString [])]\<rparr>,
      \<lparr>entries = []\<rparr>, \<lparr>entries = [url_entry JNull, url_entry (JString (codepoints ''/y''))]\<rparr>] =
     [codepoints ''https://www.notion.so/x'', codepoints ''https://www.notion.so/y'']"
  using discoverer_order [of "codepoints ''https://www.notion.so''"
     "[\<lparr>entries = [Map.empty, url_entry (JString (codepoints ''/x'')), url_entry (JString [])]\<rparr>,
      \<lparr>entries = []\<rparr>, \<lparr>entries = [url_entry JNull, url_entry (JString (codepoints ''/y''))]\<rparr>]"]
  by (simp add: discovered_def present_url_def url_entry_def List.map_filter_simps)
    (simp add: codepoints_def)

text \<open>
  Claim C6. The chunks the run hands to the sink are the chunks of the documents in
  order, a failed document giving none; the failures logged are the URLs of the failed
  documents, one record each and in order; and a document that fails between two lists
  of documents leaves the chunks of both lists, in that order.
\<close>

theorem failure_isolation:
  "fst (scrapping_notion docs) = concat (map (\<lambda>(url, outcome). chunks_of outcome) docs) \<and>
   failures (snd (scrapping_notion docs)) = failed_urls docs \<and>
   (\<forall>e. fst (scrapping_notion (before @ (url, Inl e) # after)) =
        fst (scrapping_notion before) @ fst (scrapping_notion after))"
proof -
  have all: "fst (scrapping_notion ds) = concat (map (\<lambda>(url, outcome). chunks_of outcome) ds) \<and>
      failures (snd (scrapping_notion ds)) = failed_urls ds" for ds
  proof -
    obtain chunks' log' where p: "process_urls ds ([], []) = (chunks', log')"
      by (cases "process_urls ds ([], [])")
    from process_urls_eq [OF p] show ?thesis
      using p by (simp add: scrapping_notion_def failures_def)
  qed
  then show ?thesis by (simp add: chunks_of_def)
qed

theorem failure_isolation_witness:
  "scrapping_notion
     [(codepoints ''u1'', Inr (codepoints ''# A'')),
      (codepoints ''u2'', Inl (OtherException ''no article'')),
      (codepoints ''u3'', Inr (codepoints ''# B''))] =
     ([codepoints ''# A'', codepoints ''# B''],
      [Info_got 1 (codepoints ''u1''), Error_failed (codepoints ''u2''),
       Info_got 1 (codepoints ''u3''), Info_total 2])"
proof -
  let ?docs = "[(codepoints ''u1'', Inr (codepoints ''# A'')),
      (codepoints ''u2'', Inl (OtherException ''no article'')),
      (codepoints ''u3'', Inr (codepoints ''# B''))]"
  have a: "split_markdown (codepoints ''# A'') 750 = [codepoints ''# A'']"
    by (simp add: split_markdown_def re_split_def match_headline_def add_section_def
        is_space_def strip_def codepoints_def)
  have b: "split_markdown (codepoints ''# B'') 750 = [codepoints ''# B'']"
    by (simp add: split_markdown_def re_split_def match_headline_def add_section_def
        is_space_def strip_def codepoints_def)
  have "fst (scrapping_notion ?docs) = [codepoints ''# A'', codepoints ''# B'']"
    using failure_isolation [of ?docs "[]" "[]" "[]"] by (simp add: chunks_of_def a b)
  moreover have "snd (scrapping_notion ?docs) =
      [Info_got 1 (codepoints ''u1''), Error_failed (codepoints ''u2''),
       Info_got 1 (codepoints ''u3''), Info_total 2]"
    by (simp add: scrapping_notion_def a b)
  ultimately show ?thesis by (simp add: prod_eq_iff)
qed

text \<open>
  Claim C7. Whenever a request of \<^verbatim>\<open>fetch_url\<close> completes with a response, whatever its
  status code, \<^verbatim>\<open>fetch_url\<close> returns the text of that response and makes no further
  attempt: \<^verbatim>\<open>raise_for_status\<close> is named and never called. This holds at the first, the
  second and the third attempt, the attempts before it having raised. Only when all
  three attempts raise does \<^verbatim>\<open>fetch_url\<close> raise, with the exception of the third.
\<close>

theorem fetch_url_ignores_status:
  "(1 \<le> k \<and> k \<le> 3 \<and> (\<forall>j. 1 \<le> j \<and> j < k \<longrightarrow> (\<exists>e. get j = Inl e)) \<and> get k = Inr rep
      \<longrightarrow> fetch_url get = (Inr (resp_text rep), k)) \<and>
   ((\<forall>j. 1 \<le> j \<and> j \<le> 3 \<longrightarrow> (\<exists>e. get j = Inl e))
      \<longrightarrow> (\<exists>e. get 3 = Inl e \<and> fetch_url get = (Inl e, 3)))"
proof (intro conjI impI)
  assume a: "1 \<le> k \<and> k \<le> 3 \<and> (\<forall>j. 1 \<le> j \<and> j < k \<longrightarrow> (\<exists>e. get j = Inl e)) \<and> get k = Inr rep"
  then have before: "\<And>j. 1 \<le> j \<Longrightarrow> j < k \<Longrightarrow> \<exists>e. get j = Inl e" and k: "get k = Inr rep"
    by blast+
  from a consider "k = 1" | "k = 2" | "k = 3" by linarith
  then show "fetch_url get = (Inr (resp_text rep), k)"
  proof cases
    case 1
    then show ?thesis using k by (simp add: fetch_url_unfold fetch_url_body_simps numeral_2_eq_2 numeral_3_eq_3)
  next
    case 2
    obtain e1 where "get 1 = Inl e1" using before [of 1] 2 by auto
    then show ?thesis using k 2 by (simp add: fetch_url_unfold fetch_url_body_simps numeral_2_eq_2 numeral_3_eq_3)
  next
    case 3
    obtain e1 where "get 1 = Inl e1" using before [of 1] 3 by auto
    moreover obtain e2 where "get 2 = Inl e2" using before [of 2] 3 by auto
    ultimately show ?thesis using k 3 by (simp add: fetch_url_unfold fetch_url_body_simps numeral_2_eq_2 numeral_3_eq_3)
  qed
next
  assume a: "\<forall>j. 1 \<le> j \<and> j \<le> 3 \<longrightarrow> (\<exists>e. get j = Inl e)"
  obtain e1 where e1: "get 1 = Inl e1" using a [rule_format, of 1] by auto
  obtain e2 where e2: "get 2 = Inl e2" using a [rule_format, of 2] by auto
  obtain e3 where e3: "get 3 = Inl e3" using a [rule_format, of 3] by auto
  have "fetch_url get = (Inl e3, 3)"
    using e1 e2 e3 by (simp add: fetch_url_unfold fetch_url_body_simps numeral_2_eq_2 numeral_3_eq_3)
  with e3 show "\<exists>e. get 3 = Inl e \<and> fetch_url get = (Inl e, 3)" by blast
qed

theorem fetch_url_ignores_status_witness:
  "raise_for_status \<lparr>status_code = 404, resp_text = codepoints ''Not Found''\<rparr> () = Inl (HTTPError 404) \<and>
   fetch_url (\<lambda>attempt. if attempt = 1 then Inl (RequestException ''connection refused'')
                          else Inr \<lparr>status_code = 404, resp_text = codepoints ''Not Found''\<rparr>) =
     (Inr (codepoints ''Not Found''), 2) \<and>
   fetch_url (\<lambda>attempt. Inr \<lparr>status_code = 500, resp_text = codepoints ''Server Error''\<rparr>) =
     (Inr (codepoints ''Server Error''), 1)"
proof -
  let ?get = "\<lambda>attempt :: nat. if attempt = 1 then Inl (RequestException ''connection refused'')
                          else Inr \<lparr>status_code = 404, resp_text = codepoints ''Not Found''\<rparr>"
  have "1 \<le> (2::nat) \<and> (2::nat) \<le> 3 \<and> (\<forall>j. 1 \<le> j \<and> j < 2 \<longrightarrow> (\<exists>e. ?get j = Inl e)) \<and>
      ?get 2 = Inr \<lparr>status_code = 404, resp_text = codepoints ''Not Found''\<rparr>"
    by auto
  with fetch_url_ignores_status [of 2 ?get "\<lparr>status_code = 404, resp_text = codepoints ''Not Found''\<rparr>"]
  have a: "fetch_url ?get = (Inr (codepoints ''Not Found''), 2)" by simp
  let ?g5 = "\<lambda>attempt :: nat. Inr \<lparr>status_code = 500, resp_text = codepoints ''Server Error''\<rparr> :: exn + response"
  have "1 \<le> (1::nat) \<and> (1::nat) \<le> 3 \<and> (\<forall>j. 1 \<le> j \<and> j < 1 \<longrightarrow> (\<exists>e. ?g5 j = Inl e)) \<and>
      ?g5 1 = Inr \<lparr>status_code = 500, resp_text = codepoints ''Server Error''\<rparr>"
    by auto
  with fetch_url_ignores_status [of 1 ?g5 "\<lparr>status_code = 500, resp_text = codepoints ''Server Error''\<rparr>"]
  have b: "fetch_url ?g5 = (Inr (codepoints ''Server Error''), 1)" by simp
  have "raise_for_status \<lparr>status_code = 404, resp_text = codepoints ''Not Found''\<rparr> () = Inl (HTTPError 404)"
    by (simp add: raise_for_status_def)
  with a b show ?thesis by blast
qed

section \<open>The claim about the postprocessing\<close>

text \<open>
  Claim C8, as amended. The claim says that the postprocessing applied twice gives what
  it gives applied once. \<^verbatim>\<open>splitlines\<close> drops an empty last line, so a result that
  ends with a newline loses this newline the second time. What holds for every string:
  the postprocessing applied twice gives the result of applying it once without one
  newline at its end, when it has one; twice is once exactly when the result of the
  first pass is empty or does not end with a newline.
\<close>

theorem normalize_twice:
  "normalize_whitespace (normalize_whitespace s) = chop_newline (normalize_whitespace s) \<and>
   (normalize_whitespace (normalize_whitespace s) = normalize_whitespace s \<longleftrightarrow>
      normalize_whitespace s = [] \<or> last (normalize_whitespace s) \<noteq> 10)"
proof -
  let ?L = "map strip (splitlines s)"
  let ?t = "normalize_whitespace s"
  let ?M = "split_newline_from [] ?t"
  have t: "?t = sub_newlines (join_newline ?L)" by (simp add: normalize_whitespace_def)
  have L: "\<forall>l \<in> set ?L. clean_line l" using clean_lines_normalize by blast
  then have nl: "\<forall>l \<in> set ?L. 10 \<notin> set l" using clean_no_newline by blast
  have "set ?M \<subseteq> {[]} \<union> set (split_newline_from [] (join_newline ?L))"
    unfolding t by (rule split_newline_from_sub)
  also have "\<dots> \<subseteq> {[]} \<union> set ?L"
    using split_newline_from_join [OF nl, of "[]"] by auto
  finally have "\<forall>l \<in> set ?M. clean_line l" using L clean_Nil by blast
  moreover have j: "join_newline ?M = ?t" by (simp add: join_split_newline_from)
  moreover have "no_triple_newline ?t" unfolding t by (rule no_triple_sub_newlines)
  ultimately have tw: "normalize_whitespace ?t = chop_newline ?t"
    using normalize_clean [of ?M] by simp
  have "chop_newline ?t = ?t \<longleftrightarrow> ?t = [] \<or> last ?t \<noteq> 10"
    by (cases ?t rule: rev_cases) (auto simp: chop_newline_def)
  with tw show ?thesis by simp
qed

theorem normalize_twice_witness:
  "normalize_whitespace (codepoints ''a b\<newline>c'') = codepoints ''a b\<newline>c'' \<and>
   normalize_whitespace (normalize_whitespace (codepoints ''a b\<newline>c'')) =
     normalize_whitespace (codepoints ''a b\<newline>c'')"
proof -
  have n: "normalize_whitespace (codepoints ''a b\<newline>c'') = codepoints ''a b\<newline>c''"
    by (simp add: normalize_whitespace_def splitlines_def codepoints_def is_linebreak_def
        is_space_def strip_def)
  have "last (codepoints ''a b\<newline>c'') \<noteq> 10" by (simp add: codepoints_def)
  with normalize_twice [of "codepoints ''a b\<newline>c''"] n show ?thesis by simp
qed

text \<open>
  The claim as stated fails on \<^verbatim>\<open>"a\n\n"\<close>: the first pass gives \<^verbatim>\<open>"a\n"\<close>, the second
  pass gives \<^verbatim>\<open>"a"\<close>.
\<close>

theorem normalize_not_idempotent_counterexample:
  "normalize_whitespace (codepoints ''a\<newline>\<newline>'') = codepoints ''a\<newline>'' \<and>
   normalize_whitespace (codepoints ''a\<newline>'') = codepoints ''a'' \<and>
   normalize_whitespace (normalize_whitespace (codepoints ''a\<newline>\<newline>'')) \<noteq>
     normalize_whitespace (codepoints ''a\<newline>\<newline>'')"
proof -
  have a: "normalize_whitespace (codepoints ''a\<newline>\<newline>'') = codepoints ''a\<newline>''"
    by (simp add: normalize_whitespace_def splitlines_def codepoints_def is_linebreak_def
        is_space_def strip_def)
  have b: "normalize_whitespace (codepoints ''a\<newline>'') = codepoints ''a''"
    by (simp add: normalize_whitespace_def splitlines_def codepoints_def is_linebreak_def
        is_space_def strip_def)
  have "codepoints ''a'' \<noteq> codepoints ''a\<newline>''" by (simp add: codepoints_def)
  with a b show ?thesis by simp
qed

section \<open>The claim about the sink\<close>




end
